theory Spec2Isabelle
  imports Complex_Main "HOL-Library.Multiset"
begin

section \<open>Food delivery dispatch simulation (food\_dis\_sim.py)\<close>

text \<open>
  The program is a discrete-event simulation written against the SimPy engine: the
  generator \<open>food_delivery\<close> produces orders, one generator \<open>handle_order\<close> per order asks
  a \<open>simpy.Resource\<close> for a driver, holds it for a service time and records three numbers,
  and \<open>run_simulation\<close> runs the engine up to a horizon and summarises the records.

  Conventions of the embedding.
  \<^item> Virtual time and every other Python float is a rational number: arithmetic is exact.
  \<^item> The module-global random source is the parameter \<open>rnd\<close>: its \<open>k\<close>-th value stands
    for the \<open>k\<close>-th value of \<open>-log(1 - random())\<close>, the unit-rate sample that
    \<open>random.expovariate\<close> divides by its rate. The state counts the draws made.
  \<^item> A suspended generator is the event that will resume it, carrying the generator's
    live local variables (its continuation).
  \<^item> An exception is a value of type \<open>error\<close>.
  \<^item> The engine's heap of \<open>(time, priority, eid, event)\<close> tuples is a list kept in
    ascending tuple order; event ids are unique, so the order is total and popping
    the head is popping the heap's minimum.
  \<^item> The run loop takes fuel: a run that is still going when the fuel is spent has no
    result (\<open>None\<close>). A run need not end: with unit samples that are all 0 the
    arrivals never leave time 0.

  The libraries are not part of the program; the embedding writes out what the program
  uses of them.
  \<^item> SimPy, \<open>Environment\<close>: \<open>schedule\<close> pushes \<open>(now + delay, priority, eid, event)\<close>;
    \<open>step\<close> pops the least entry, sets \<open>now\<close>, runs the callbacks and re-raises the
    exception of a failed event; \<open>run(until)\<close> raises \<open>ValueError\<close> unless \<open>until > now\<close>,
    schedules the stop event urgent at \<open>until\<close>, and steps until it fires;
    \<open>timeout(delay)\<close> raises \<open>ValueError\<close> for a negative delay; \<open>process\<close> schedules the
    start of a generator urgent at \<open>now\<close>; a generator that returns or raises schedules
    its process event at \<open>now\<close>.
  \<^item> SimPy, \<open>Resource\<close>: the constructor raises \<open>ValueError\<close> unless \<open>capacity > 0\<close>;
    \<open>request()\<close> appends to \<open>put_queue\<close> and calls \<open>_trigger_put\<close>, which grants the head
    of \<open>put_queue\<close> if fewer than \<open>capacity\<close> requests are users; leaving the \<open>with\<close>
    block releases: the request leaves \<open>users\<close> and the release event, once it fires,
    calls \<open>_trigger_put\<close>.
  \<^item> \<open>random.expovariate(lambd)\<close> is \<open>-log(1.0 - random()) / lambd\<close>.
  \<^item> \<open>statistics.mean\<close> raises \<open>StatisticsError\<close> on no data.
\<close>

subsection \<open>Errors\<close>

datatype value_error =
    CapacityNotPositive   \<comment> \<open>\<open>simpy.Resource\<close>: "capacity" must be > 0\<close>
  | UntilNotAfterNow      \<comment> \<open>\<open>Environment.run\<close>: until must be > the current simulation time\<close>
  | NegativeDelay         \<comment> \<open>\<open>Timeout\<close>: negative delay\<close>

datatype error =
    ValueError value_error
  | ZeroDivisionError
  | StatisticsError       \<comment> \<open>\<open>statistics.mean\<close> of no data\<close>
  | RuntimeError          \<comment> \<open>\<open>Environment.run\<close>: no scheduled events left\<close>

subsection \<open>Data\<close>

type_synonym time = rat

text \<open>The dictionary \<open>results\<close> of \<open>run_simulation\<close> (line 52).\<close>

record results =
  wait_times :: "time list"
  system_times :: "time list"
  completed_orders :: "int list"

text \<open>
  Events. Each constructor is one kind of event the program creates, with the local
  variables of the generator that waits for it:
  \<^item> \<open>InitArrival\<close>: start of \<open>food_delivery\<close> (scheduled by \<open>env.process\<close>, line 53);
  \<^item> \<open>ArrivalTimeout\<close>: the timeout of line 27;
  \<^item> \<open>InitHandler order_id\<close>: start of \<open>handle_order\<close> (scheduled by \<open>env.process\<close>, line 29);
  \<^item> \<open>RequestEvent order_id arrival_time\<close>: the granted request of lines 34-35;
  \<^item> \<open>ServiceTimeout order_id arrival_time wait_time\<close>: the timeout of line 38;
  \<^item> \<open>ReleaseEvent\<close>: the release made when the \<open>with\<close> block is left;
  \<^item> \<open>ProcessEnded\<close>: the process event of a \<open>handle_order\<close> that has returned;
  \<^item> \<open>ProcessFailed e\<close>: the process event of a generator that raised \<open>e\<close>;
  \<^item> \<open>Until\<close>: the stop event that \<open>env.run(until=...)\<close> schedules.
\<close>

datatype event =
    InitArrival
  | ArrivalTimeout
  | InitHandler int
  | RequestEvent int time
  | ServiceTimeout int time time
  | ReleaseEvent
  | ProcessEnded
  | ProcessFailed error
  | Until

type_synonym entry = "time \<times> nat \<times> nat \<times> event"

definition URGENT :: nat where "URGENT = 0"
definition NORMAL :: nat where "NORMAL = 1"

text \<open>
  The state of one run: the environment (\<open>now\<close>, \<open>eid\<close>, \<open>queue\<close>), the number of random
  draws made, the local \<open>order_id\<close> of \<open>food_delivery\<close>, the resource (\<open>users\<close>,
  \<open>put_queue\<close>, and \<open>usage_since\<close>: the attribute that a grant sets on the request, kept
  as the list of (order, grant time) in the order the grants were made), and \<open>results\<close>.
  A request is named by the order id of the generator that made it; a waiting request
  carries that generator's \<open>arrival_time\<close>. \<open>order_id\<close> is 0 until line 22 sets it.

  \<open>scheduled\<close> and \<open>request_log\<close> are history variables: every event that was
  passed to \<open>Environment.schedule\<close>, in the order of the calls (the event itself, so
  for the start of a handler the \<open>order_id\<close> it was given in line 29), and the order
  ids in the order in which line 34 called \<open>request()\<close>. Nothing reads them.
\<close>

record state =
  now :: time
  eid :: nat
  queue :: "entry list"
  draws :: nat
  order_id :: int
  users :: "int list"
  put_queue :: "(int \<times> time) list"
  usage_since :: "(int \<times> time) list"
  results :: results
  scheduled :: "event list"
  request_log :: "int list"

text \<open>The arguments of \<open>food_delivery\<close> and the random source.\<close>

record params =
  num_drivers :: int
  arrival_rate :: rat
  service_time_mean :: rat
  rnd :: "nat \<Rightarrow> rat"

datatype outcome =
    Running state
  | Stopped state
  | Crashed error state

fun state_of :: "outcome \<Rightarrow> state" where
  "state_of (Running s) = s"
| "state_of (Stopped s) = s"
| "state_of (Crashed e s) = s"

subsection \<open>The engine: scheduling\<close>

text \<open>Python's comparison of the tuples \<open>(time, priority, eid)\<close>.\<close>

fun key_less :: "entry \<Rightarrow> entry \<Rightarrow> bool" where
  "key_less (t1, p1, i1, _) (t2, p2, i2, _) =
     (t1 < t2 \<or> (t1 = t2 \<and> (p1 < p2 \<or> (p1 = p2 \<and> i1 < i2))))"

fun heappush :: "entry \<Rightarrow> entry list \<Rightarrow> entry list" where
  "heappush e [] = [e]"
| "heappush e (x # xs) = (if key_less e x then e # x # xs else x # heappush e xs)"

text \<open>\<open>Environment.schedule(event, priority, delay)\<close>.\<close>

definition schedule :: "event \<Rightarrow> nat \<Rightarrow> time \<Rightarrow> state \<Rightarrow> state" where
  "schedule ev prio delay s =
     s\<lparr>queue := heappush (now s + delay, prio, eid s, ev) (queue s), eid := eid s + 1,
       scheduled := scheduled s @ [ev]\<rparr>"

text \<open>\<open>env.timeout(delay)\<close>: a negative delay raises, otherwise the timeout is scheduled.\<close>

definition timeout :: "event \<Rightarrow> time \<Rightarrow> state \<Rightarrow> error + state" where
  "timeout ev delay s =
     (if delay < 0 then Inl (ValueError NegativeDelay) else Inr (schedule ev NORMAL delay s))"

text \<open>A generator that raises: its process event fails and is scheduled.\<close>

definition fail :: "error \<Rightarrow> state \<Rightarrow> state" where
  "fail e s = schedule (ProcessFailed e) NORMAL 0 s"

subsection \<open>The random variate\<close>

text \<open>
  \<open>random.expovariate(lambd)\<close> is \<open>-log(1.0 - random()) / lambd\<close>; \<open>u\<close> is the value of
  \<open>-log(1.0 - random())\<close>. The division raises when \<open>lambd\<close> is zero, after the draw.
\<close>

definition expovariate :: "rat \<Rightarrow> rat \<Rightarrow> error + rat" where
  "expovariate lambd u = (if lambd = 0 then Inl ZeroDivisionError else Inr (u / lambd))"

text \<open>The draw of line 26, and the draw of line 37 with its rate \<open>1.0 / service_time_mean\<close>.\<close>

definition interarrival_draw :: "rat \<Rightarrow> rat \<Rightarrow> error + rat" where
  "interarrival_draw rate u = expovariate rate u"

definition service_draw :: "rat \<Rightarrow> rat \<Rightarrow> error + rat" where
  "service_draw mean u =
     (if mean = 0 then Inl ZeroDivisionError else expovariate (1 / mean) u)"

subsection \<open>The resource\<close>

text \<open>
  \<open>_trigger_put\<close> with \<open>Resource._do_put\<close>: only the head of \<open>put_queue\<close> is looked at
  (\<open>_do_put\<close> returns nothing, so the scan stops after one request). If a unit is free
  the head becomes a user, its \<open>usage_since\<close> is set, its event is scheduled, and it
  leaves the queue.
\<close>

definition trigger_put :: "params \<Rightarrow> state \<Rightarrow> state" where
  "trigger_put P s =
     (case put_queue s of
        [] \<Rightarrow> s
      | (oid, arr) # rest \<Rightarrow>
          if int (length (users s)) < num_drivers P
          then schedule (RequestEvent oid arr) NORMAL 0
                 (s\<lparr>users := users s @ [oid],
                    usage_since := usage_since s @ [(oid, now s)],
                    put_queue := rest\<rparr>)
          else s)"

text \<open>\<open>driver_resource.request()\<close>: join the tail of \<open>put_queue\<close>, then \<open>_trigger_put\<close>.\<close>

definition request :: "params \<Rightarrow> int \<Rightarrow> time \<Rightarrow> state \<Rightarrow> state" where
  "request P oid arr s =
     trigger_put P (s\<lparr>put_queue := put_queue s @ [(oid, arr)],
                      request_log := request_log s @ [oid]\<rparr>)"

text \<open>
  Leaving the \<open>with\<close> block: \<open>release\<close> removes the request from \<open>users\<close> and schedules
  the release event, whose callback is \<open>_trigger_put\<close>.
\<close>

definition release :: "int \<Rightarrow> state \<Rightarrow> state" where
  "release oid s = schedule ReleaseEvent NORMAL 0 (s\<lparr>users := remove1 oid (users s)\<rparr>)"

subsection \<open>The generators\<close>

text \<open>Lines 26-27: draw the gap and wait for it; an exception fails the process.\<close>

definition arrival_wait :: "params \<Rightarrow> state \<Rightarrow> state" where
  "arrival_wait P s =
     (let u = rnd P (draws s);
          s1 = s\<lparr>draws := draws s + 1\<rparr>
      in case interarrival_draw (arrival_rate P) u of
           Inl e \<Rightarrow> fail e s1
         | Inr interarrival \<Rightarrow>
             (case timeout ArrivalTimeout interarrival s1 of
                Inl e \<Rightarrow> fail e s1
              | Inr s2 \<Rightarrow> s2))"

text \<open>
  Lines 36-38, after the grant. Inside the \<open>with\<close> block an exception releases the
  driver before it fails the process. The rate \<open>1.0 / service_time_mean\<close> is computed
  before the draw.
\<close>

definition start_service :: "params \<Rightarrow> int \<Rightarrow> time \<Rightarrow> state \<Rightarrow> state" where
  "start_service P oid arrival s =
     (let wait_time = now s - arrival in
      if service_time_mean P = 0 then fail ZeroDivisionError (release oid s)
      else
        let u = rnd P (draws s);
            s1 = s\<lparr>draws := draws s + 1\<rparr>
        in case service_draw (service_time_mean P) u of
             Inl e \<Rightarrow> fail e (release oid s1)
           | Inr service_time \<Rightarrow>
               (case timeout (ServiceTimeout oid arrival wait_time) service_time s1 of
                  Inl e \<Rightarrow> fail e (release oid s1)
                | Inr s2 \<Rightarrow> s2))"

text \<open>Lines 39-43, then the end of the \<open>with\<close> block and of the generator.\<close>

definition finish_order :: "int \<Rightarrow> time \<Rightarrow> time \<Rightarrow> state \<Rightarrow> state" where
  "finish_order oid arrival wait_time s =
     (let system_time = now s - arrival;
          r = results s;
          r1 = r\<lparr>wait_times := wait_times r @ [wait_time]\<rparr>;
          r2 = r1\<lparr>system_times := system_times r1 @ [system_time]\<rparr>;
          r3 = r2\<lparr>completed_orders := completed_orders r2 @ [oid]\<rparr>
      in schedule ProcessEnded NORMAL 0 (release oid (s\<lparr>results := r3\<rparr>)))"

text \<open>Lines 28-29, then the next round of the loop.\<close>

definition spawn_order :: "params \<Rightarrow> state \<Rightarrow> state" where
  "spawn_order P s =
     (let s1 = s\<lparr>order_id := order_id s + 1\<rparr>;
          s2 = schedule (InitHandler (order_id s1)) URGENT 0 s1
      in arrival_wait P s2)"

text \<open>Lines 21-22, then the first round of the loop.\<close>

definition start_arrivals :: "params \<Rightarrow> state \<Rightarrow> state" where
  "start_arrivals P s =
     (if num_drivers P \<le> 0 then fail (ValueError CapacityNotPositive) s
      else arrival_wait P (s\<lparr>order_id := 0\<rparr>))"

subsection \<open>The engine: one step and the run loop\<close>

text \<open>The callbacks of an event that has been popped.\<close>

fun fire :: "params \<Rightarrow> event \<Rightarrow> state \<Rightarrow> outcome" where
  "fire P InitArrival s = Running (start_arrivals P s)"
| "fire P ArrivalTimeout s = Running (spawn_order P s)"
| "fire P (InitHandler oid) s = Running (request P oid (now s) s)"
| "fire P (RequestEvent oid arrival) s = Running (start_service P oid arrival s)"
| "fire P (ServiceTimeout oid arrival w) s = Running (finish_order oid arrival w s)"
| "fire P ReleaseEvent s = Running (trigger_put P s)"
| "fire P ProcessEnded s = Running s"
| "fire P (ProcessFailed e) s = Crashed e s"
| "fire P Until s = Stopped s"

text \<open>
  \<open>Environment.step\<close>: pop the least entry, set the clock, run the callbacks. An empty
  queue while \<open>until\<close> is pending is a \<open>RuntimeError\<close>.
\<close>

definition step :: "params \<Rightarrow> state \<Rightarrow> outcome" where
  "step P s =
     (case queue s of
        [] \<Rightarrow> Crashed RuntimeError s
      | (t, p, i, ev) # q \<Rightarrow> fire P ev (s\<lparr>now := t, queue := q\<rparr>))"

fun exec :: "params \<Rightarrow> nat \<Rightarrow> state \<Rightarrow> outcome" where
  "exec P 0 s = Running s"
| "exec P (Suc n) s =
     (case step P s of
        Running s' \<Rightarrow> exec P n s'
      | Stopped s' \<Rightarrow> Stopped s'
      | Crashed e s' \<Rightarrow> Crashed e s')"

text \<open>\<open>simpy.Environment()\<close> and the empty \<open>results\<close> (lines 51-52).\<close>

definition new_env :: state where
  "new_env = \<lparr>now = 0, eid = 0, queue = [], draws = 0, order_id = 0, users = [],
              put_queue = [], usage_since = [],
              results = \<lparr>wait_times = [], system_times = [], completed_orders = []\<rparr>,
              scheduled = [], request_log = []\<rparr>"

text \<open>\<open>env.process(food_delivery(...))\<close> (line 53).\<close>

definition env_process :: "state \<Rightarrow> state" where
  "env_process s = schedule InitArrival URGENT 0 s"

text \<open>
  \<open>env.run(until)\<close> (line 54): \<open>until\<close> must lie after the clock; the stop event is
  scheduled urgent at \<open>until\<close>; then the engine steps until it stops or crashes.
\<close>

definition stop_scheduled :: "time \<Rightarrow> state \<Rightarrow> state" where
  "stop_scheduled until s = schedule Until URGENT (until - now s) s"

definition env_run :: "params \<Rightarrow> time \<Rightarrow> nat \<Rightarrow> state \<Rightarrow> outcome option" where
  "env_run P until fuel s =
     (if until \<le> now s then Some (Crashed (ValueError UntilNotAfterNow) s)
      else case exec P fuel (stop_scheduled until s) of
             Running _ \<Rightarrow> None
           | out \<Rightarrow> Some out)"

subsection \<open>The runner\<close>

text \<open>\<open>statistics.mean\<close>.\<close>

definition mean :: "rat list \<Rightarrow> error + rat" where
  "mean xs = (if xs = [] then Inl StatisticsError
              else Inr (sum_list xs / of_nat (length xs)))"

text \<open>Python's float division.\<close>

definition py_div :: "rat \<Rightarrow> rat \<Rightarrow> error + rat" where
  "py_div a b = (if b = 0 then Inl ZeroDivisionError else Inr (a / b))"

text \<open>Lines 56-60.\<close>

definition summarise :: "results \<Rightarrow> rat \<Rightarrow> error + (rat \<times> rat \<times> rat \<times> results)" where
  "summarise r sim_duration =
     (case (if wait_times r \<noteq> [] then mean (wait_times r) else Inr 0) of
        Inl e \<Rightarrow> Inl e
      | Inr avg_wait \<Rightarrow>
          (case (if system_times r \<noteq> [] then mean (system_times r) else Inr 0) of
             Inl e \<Rightarrow> Inl e
           | Inr avg_system \<Rightarrow>
               (case py_div (of_nat (length (completed_orders r))) (sim_duration / 60) of
                  Inl e \<Rightarrow> Inl e
                | Inr throughput \<Rightarrow> Inr (avg_wait, avg_system, throughput, r))))"

definition mk_params :: "int \<Rightarrow> rat \<Rightarrow> rat \<Rightarrow> (nat \<Rightarrow> rat) \<Rightarrow> params" where
  "mk_params n a m r =
     \<lparr>num_drivers = n, arrival_rate = a, service_time_mean = m, rnd = r\<rparr>"

text \<open>Lines 51-54: the engine part of \<open>run_simulation\<close>.\<close>

definition simulate ::
  "int \<Rightarrow> rat \<Rightarrow> rat \<Rightarrow> rat \<Rightarrow> (nat \<Rightarrow> rat) \<Rightarrow> nat \<Rightarrow> outcome option" where
  "simulate n a m sim_duration r fuel =
     env_run (mk_params n a m r) sim_duration fuel (env_process new_env)"

definition run_simulation ::
  "int \<Rightarrow> rat \<Rightarrow> rat \<Rightarrow> rat \<Rightarrow> (nat \<Rightarrow> rat) \<Rightarrow> nat
     \<Rightarrow> (error + (rat \<times> rat \<times> rat \<times> results)) option" where
  "run_simulation n a m sim_duration r fuel =
     (case simulate n a m sim_duration r fuel of
        None \<Rightarrow> None
      | Some (Running s) \<Rightarrow> None
      | Some (Crashed e s) \<Rightarrow> Some (Inl e)
      | Some (Stopped s) \<Rightarrow> Some (summarise (results s) sim_duration))"

subsection \<open>The states of a run\<close>

text \<open>
  \<open>boot d\<close> is the state in which the engine starts stepping: the environment after
  line 53, with the stop event for horizon \<open>d\<close> scheduled. \<open>state_after n a m d r k\<close>
  is the state of the run of \<open>run_simulation n a m d\<close> on the random source \<open>r\<close> after
  \<open>k\<close> steps of the engine, or the state in which the run ended if it ended earlier.
\<close>

definition boot :: "time \<Rightarrow> state" where
  "boot d = stop_scheduled d (env_process new_env)"

definition state_after :: "int \<Rightarrow> rat \<Rightarrow> rat \<Rightarrow> rat \<Rightarrow> (nat \<Rightarrow> rat) \<Rightarrow> nat \<Rightarrow> state" where
  "state_after n a m d r k = state_of (exec (mk_params n a m r) k (boot d))"

subsection \<open>Invariants of the engine\<close>

text \<open>
  What an event promises about the time at which it fires: a granted request fires no
  earlier than the order arrived, a service timeout fires no earlier than the grant.
\<close>

fun event_ok :: "time \<Rightarrow> event \<Rightarrow> bool" where
  "event_ok t (RequestEvent oid arr) = (arr \<le> t)"
| "event_ok t (ServiceTimeout oid arr w) = (0 \<le> w \<and> arr + w \<le> t)"
| "event_ok t _ = True"

fun entry_ok :: "time \<Rightarrow> entry \<Rightarrow> bool" where
  "entry_ok n (t, p, i, ev) = (n \<le> t \<and> event_ok t ev)"

definition results_ok :: "results \<Rightarrow> bool" where
  "results_ok r =
     (list_all2 (\<lambda>w t. 0 \<le> w \<and> w \<le> t) (wait_times r) (system_times r) \<and>
      length (completed_orders r) = length (wait_times r))"

definition time_inv :: "state \<Rightarrow> bool" where
  "time_inv s =
     (sorted (map fst (queue s)) \<and> (\<forall>e \<in> set (queue s). entry_ok (now s) e) \<and>
      (\<forall>w \<in> set (put_queue s). snd w \<le> now s) \<and> results_ok (results s))"

text \<open>The queue is in ascending order of the keys \<open>(time, priority, eid)\<close>.\<close>

definition key_sorted :: "state \<Rightarrow> bool" where
  "key_sorted s = sorted_wrt (\<lambda>x y. \<not> key_less y x) (queue s)"

text \<open>
  The order ids that live generators hold: those of the handlers waiting in the event
  queue (not yet started, granted, or in service) and of the requests waiting in
  \<open>put_queue\<close>.
\<close>

fun event_ids :: "event \<Rightarrow> int list" where
  "event_ids (InitHandler oid) = [oid]"
| "event_ids (RequestEvent oid arr) = [oid]"
| "event_ids (ServiceTimeout oid arr w) = [oid]"
| "event_ids _ = []"

fun entry_event :: "entry \<Rightarrow> event" where
  "entry_event (t, p, i, ev) = ev"

definition queue_ids :: "entry list \<Rightarrow> int list" where
  "queue_ids q = concat (map (\<lambda>e. event_ids (entry_event e)) q)"

definition pending_orders :: "state \<Rightarrow> int list" where
  "pending_orders s = queue_ids (queue s) @ map fst (put_queue s)"

definition accounted :: "state \<Rightarrow> int multiset" where
  "accounted s = mset (pending_orders s) + mset (completed_orders (results s))"

text \<open>
  The order ids that \<open>food_delivery\<close> has handed to \<open>handle_order\<close>, in the order of
  the calls of line 29: the arguments of the handler starts that were scheduled.
\<close>

fun handler_id :: "event \<Rightarrow> int list" where
  "handler_id (InitHandler oid) = [oid]"
| "handler_id _ = []"

definition spawned_ids :: "state \<Rightarrow> int list" where
  "spawned_ids s = concat (map handler_id (scheduled s))"

definition no_init :: "state \<Rightarrow> bool" where
  "no_init s = (\<forall>e \<in> set (queue s). entry_event e \<noteq> InitArrival)"

text \<open>
  The ids spawned so far are \<open>1, ..., order_id\<close>, and no id is held twice among the
  pending and the completed orders. \<open>ids_inv\<close> is the form that the steps preserve once
  \<open>food_delivery\<close> has started; \<open>ids_ok\<close> holds from the start.
\<close>

definition ids_inv :: "state \<Rightarrow> bool" where
  "ids_inv s = (no_init s \<and> 0 \<le> order_id s \<and> spawned_ids s = [1..order_id s] \<and>
                accounted s \<subseteq># mset (spawned_ids s))"

definition ids_ok :: "state \<Rightarrow> bool" where
  "ids_ok s = (0 \<le> order_id s \<and> spawned_ids s = [1..order_id s] \<and>
                accounted s \<subseteq># mset (spawned_ids s))"

text \<open>
  The requests in their order of arrival are the granted ones, in the order of the
  grants, followed by the waiting ones, in queue order; grant times ascend and lie in
  the past.
\<close>

definition fifo_inv :: "state \<Rightarrow> bool" where
  "fifo_inv s =
     (request_log s = map fst (usage_since s) @ map fst (put_queue s) \<and>
      sorted (map snd (usage_since s)) \<and>
      (\<forall>g \<in> set (usage_since s). snd g \<le> now s))"

text \<open>
  From \<open>s\<close> to \<open>s'\<close> the results are unchanged, or one order that was pending in \<open>s\<close>
  has added one entry to each of the three lists.
\<close>

definition appended_once :: "state \<Rightarrow> state \<Rightarrow> bool" where
  "appended_once s s' =
     (results s' = results s \<or>
      (\<exists>oid w t. oid \<in> set (pending_orders s) \<and>
         results s' = \<lparr>wait_times = wait_times (results s) @ [w],
                       system_times = system_times (results s) @ [t],
                       completed_orders = completed_orders (results s) @ [oid]\<rparr>))"

section \<open>Properties\<close>

subsection \<open>The event queue and the clock\<close>

lemma set_heappush: "set (heappush e q) = insert e (set q)"
  by (induction q) auto

lemma mset_heappush: "mset (heappush e q) = add_mset e (mset q)"
  by (induction q) auto

lemma sorted_heappush: "sorted (map fst q) \<Longrightarrow> sorted (map fst (heappush e q))"
proof (induction q)
  case Nil
  then show ?case by simp
next
  case (Cons x xs)
  obtain t1 p1 i1 v1 where e: "e = (t1, p1, i1, v1)" by (cases e)
  obtain t2 p2 i2 v2 where x: "x = (t2, p2, i2, v2)" by (cases x)
  show ?case
  proof (cases "key_less e x")
    case True
    then have "t1 \<le> t2" using e x by auto
    with Cons.prems show ?thesis using True e x by auto
  next
    case False
    then have "t2 \<le> t1" using e x by auto
    with Cons show ?thesis using False e x by (auto simp: set_heappush)
  qed
qed

lemma exec_invariant:
  assumes "\<And>s. I s \<Longrightarrow> I (state_of (step P s))" and "I s"
  shows "I (state_of (exec P n s))"
  using assms(2)
proof (induction n arbitrary: s)
  case 0
  then show ?case by simp
next
  case (Suc n)
  from assms(1)[OF Suc.prems] have st: "I (state_of (step P s))" .
  show ?case
  proof (cases "step P s")
    case (Running s')
    with st have "I s'" by simp
    from Suc.IH[OF this] Running show ?thesis by simp
  next
    case (Stopped s')
    with st show ?thesis by simp
  next
    case (Crashed e s')
    with st show ?thesis by simp
  qed
qed

lemma time_inv_schedule:
  "time_inv s \<Longrightarrow> 0 \<le> delay \<Longrightarrow> event_ok (now s + delay) ev \<Longrightarrow> time_inv (schedule ev p delay s)"
  by (auto simp: time_inv_def schedule_def set_heappush sorted_heappush)

lemma now_schedule [simp]: "now (schedule ev p delay s) = now s"
  by (simp add: schedule_def)

lemma time_inv_fail: "time_inv s \<Longrightarrow> time_inv (fail e s)"
  by (simp add: fail_def time_inv_schedule)

lemma now_fail [simp]: "now (fail e s) = now s"
  by (simp add: fail_def)

lemma time_inv_draws [simp]: "time_inv (s\<lparr>draws := k\<rparr>) = time_inv s"
  by (simp add: time_inv_def)

lemma time_inv_arrival_wait: "time_inv s \<Longrightarrow> time_inv (arrival_wait P s)"
  by (auto simp: arrival_wait_def Let_def timeout_def time_inv_fail time_inv_schedule
           split: sum.splits if_splits)

lemma time_inv_trigger_put: "time_inv s \<Longrightarrow> time_inv (trigger_put P s)"
proof (cases "put_queue s")
  case Nil
  assume "time_inv s"
  then show ?thesis using Nil by (simp add: trigger_put_def)
next
  case (Cons x rest)
  assume ti: "time_inv s"
  obtain oid arr where x: "x = (oid, arr)" by (cases x)
  from ti Cons x have arr: "arr \<le> now s" by (auto simp: time_inv_def)
  let ?s1 = "s\<lparr>users := users s @ [oid], usage_since := usage_since s @ [(oid, now s)], put_queue := rest\<rparr>"
  from ti Cons have "time_inv ?s1" by (auto simp: time_inv_def)
  then have "time_inv (schedule (RequestEvent oid arr) NORMAL 0 ?s1)"
    using arr by (intro time_inv_schedule) auto
  with ti Cons x show ?thesis by (simp add: trigger_put_def)
qed

lemma time_inv_request: "time_inv s \<Longrightarrow> arr \<le> now s \<Longrightarrow> time_inv (request P oid arr s)"
  unfolding request_def by (rule time_inv_trigger_put) (auto simp: time_inv_def)

lemma time_inv_release: "time_inv s \<Longrightarrow> time_inv (release oid s)"
  unfolding release_def by (rule time_inv_schedule) (auto simp: time_inv_def)

lemma now_release [simp]: "now (release oid s) = now s"
  by (simp add: release_def)

lemma time_inv_start_service:
  "time_inv s \<Longrightarrow> arr \<le> now s \<Longrightarrow> time_inv (start_service P oid arr s)"
  by (auto simp: start_service_def Let_def timeout_def
           intro!: time_inv_fail time_inv_release time_inv_schedule
           split: sum.splits if_splits)

lemma time_inv_finish_order:
  assumes "time_inv s" "0 \<le> w" "arr + w \<le> now s"
  shows "time_inv (finish_order oid arr w s)"
proof -
  let ?r = "results s"
  let ?r3 = "?r\<lparr>wait_times := wait_times ?r @ [w], system_times := system_times ?r @ [now s - arr],
                 completed_orders := completed_orders ?r @ [oid]\<rparr>"
  have "results_ok ?r3"
    using assms by (auto simp: results_ok_def time_inv_def intro!: list_all2_appendI)
  with assms(1) have "time_inv (s\<lparr>results := ?r3\<rparr>)" by (simp add: time_inv_def)
  then have "time_inv (schedule ProcessEnded NORMAL 0 (release oid (s\<lparr>results := ?r3\<rparr>)))"
    by (intro time_inv_schedule time_inv_release) auto
  then show ?thesis by (simp add: finish_order_def Let_def)
qed

lemma time_inv_spawn_order: "time_inv s \<Longrightarrow> time_inv (spawn_order P s)"
  unfolding spawn_order_def Let_def
  by (intro time_inv_arrival_wait time_inv_schedule) (auto simp: time_inv_def)

lemma time_inv_order_id [simp]: "time_inv (s\<lparr>order_id := k\<rparr>) = time_inv s"
  by (simp add: time_inv_def)

lemma time_inv_start_arrivals: "time_inv s \<Longrightarrow> time_inv (start_arrivals P s)"
  by (simp add: start_arrivals_def time_inv_fail time_inv_arrival_wait)

lemma time_inv_fire:
  "time_inv s \<Longrightarrow> event_ok (now s) ev \<Longrightarrow> time_inv (state_of (fire P ev s))"
  by (cases ev)
     (simp_all add: time_inv_start_arrivals time_inv_spawn_order time_inv_request
        time_inv_start_service time_inv_finish_order time_inv_trigger_put)

lemma time_inv_pop:
  assumes "time_inv s" "queue s = (t, p, i, ev) # q"
  shows "time_inv (s\<lparr>now := t, queue := q\<rparr>) \<and> event_ok t ev \<and> now s \<le> t"
  using assms by (fastforce simp: time_inv_def)

lemma time_inv_step: "time_inv s \<Longrightarrow> time_inv (state_of (step P s))"
proof (cases "queue s")
  case Nil
  assume "time_inv s"
  then show ?thesis using Nil by (simp add: step_def)
next
  case (Cons x q)
  assume ti: "time_inv s"
  obtain t p i ev where x: "x = (t, p, i, ev)" by (cases x)
  from time_inv_pop[OF ti] Cons x
  have "time_inv (s\<lparr>now := t, queue := q\<rparr>)" "event_ok (now (s\<lparr>now := t, queue := q\<rparr>)) ev"
    by auto
  from time_inv_fire[OF this] Cons x show ?thesis by (simp add: step_def)
qed

subsection \<open>The run loop and the start of a run\<close>

lemma exec_Suc_end:
  "exec P (Suc k) s = (case exec P k s of Running s' \<Rightarrow> step P s' | out \<Rightarrow> out)"
proof (induction k arbitrary: s)
  case 0
  show ?case by (cases "step P s") simp_all
next
  case (Suc k)
  show ?case
  proof (cases "step P s")
    case (Running s')
    have "exec P (Suc (Suc k)) s = exec P (Suc k) s'" using Running by simp
    also have "\<dots> = (case exec P k s' of Running s'' \<Rightarrow> step P s'' | out \<Rightarrow> out)"
      by (rule Suc.IH)
    also have "exec P k s' = exec P (Suc k) s" using Running by simp
    finally show ?thesis .
  next
    case (Stopped s')
    then show ?thesis by simp
  next
    case (Crashed e s')
    then show ?thesis by simp
  qed
qed

lemma exec_more_fuel:
  assumes "exec P k s = out" "\<forall>s'. out \<noteq> Running s'"
  shows "exec P (k + j) s = out"
proof (induction j)
  case 0
  show ?case using assms(1) by simp
next
  case (Suc j)
  have "exec P (Suc (k + j)) s = (case exec P (k + j) s of Running s' \<Rightarrow> step P s' | out \<Rightarrow> out)"
    by (rule exec_Suc_end)
  with Suc assms(2) show ?case by (cases out) simp_all
qed

lemma exec_fuel_agree:
  assumes "exec P k1 s = o1" "\<forall>s'. o1 \<noteq> Running s'"
    and "exec P k2 s = o2" "\<forall>s'. o2 \<noteq> Running s'"
  shows "o1 = o2"
proof (cases "k1 \<le> k2")
  case True
  then obtain j where "k2 = k1 + j" using le_Suc_ex by blast
  with exec_more_fuel[OF assms(1,2), of j] assms(3) show ?thesis by simp
next
  case False
  then obtain j where "k1 = k2 + j" using le_Suc_ex[of k2 k1] by auto
  with exec_more_fuel[OF assms(3,4), of j] assms(1) show ?thesis by simp
qed

lemma boot_eq:
  "0 < d \<Longrightarrow> boot d = \<lparr>now = 0, eid = 2, queue = [(0, 0, 0, InitArrival), (d, 0, 1, Until)],
       draws = 0, order_id = 0, users = [], put_queue = [], usage_since = [],
       results = \<lparr>wait_times = [], system_times = [], completed_orders = []\<rparr>,
       scheduled = [InitArrival, Until], request_log = []\<rparr>"
  by (simp add: boot_def stop_scheduled_def env_process_def new_env_def schedule_def URGENT_def)

lemma step_boot:
  "0 < d \<Longrightarrow> step P (boot d) = Running (start_arrivals P ((boot d)\<lparr>queue := [(d, 0, 1, Until)]\<rparr>))"
  by (simp add: boot_eq step_def)

lemma simulate_exec:
  "0 < d \<Longrightarrow> simulate n a m d r fuel =
     (case exec (mk_params n a m r) fuel (boot d) of Running s \<Rightarrow> None | out \<Rightarrow> Some out)"
  by (simp add: simulate_def env_run_def boot_def env_process_def new_env_def schedule_def)

lemma simulate_Stopped_pos: "simulate n a m d r fuel = Some (Stopped s) \<Longrightarrow> 0 < d"
  by (auto simp: simulate_def env_run_def env_process_def new_env_def schedule_def split: if_splits)

lemma simulate_state_after:
  assumes "simulate n a m d r fuel = Some out" "0 < d"
  shows "state_of out = state_after n a m d r fuel"
  using assms by (simp add: simulate_exec state_after_def split: outcome.splits)

lemma run_simulation_Inr:
  assumes "run_simulation n a m d r fuel = Some (Inr (aw, asys, thr, res))"
  shows "0 < d \<and> res = results (state_after n a m d r fuel)"
proof -
  from assms obtain s where s: "simulate n a m d r fuel = Some (Stopped s)"
    and sm: "summarise (results s) d = Inr (aw, asys, thr, res)"
    by (auto simp: run_simulation_def split: option.splits outcome.splits)
  from simulate_Stopped_pos[OF s] have d: "0 < d" .
  from simulate_state_after[OF s d] have "s = state_after n a m d r fuel" by simp
  moreover from sm have "res = results s"
    by (auto simp: summarise_def split: sum.splits)
  ultimately show ?thesis using d by simp
qed

lemma simulate_fuel_agree:
  assumes "simulate n a m d r f1 = Some o1" "simulate n a m d r f2 = Some o2"
  shows "o1 = o2"
proof (cases "0 < d")
  case True
  let ?P = "mk_params n a m r"
  from assms True have e1: "exec ?P f1 (boot d) = o1" and n1: "\<forall>s'. o1 \<noteq> Running s'"
    and e2: "exec ?P f2 (boot d) = o2" and n2: "\<forall>s'. o2 \<noteq> Running s'"
    by (auto simp: simulate_exec split: outcome.splits)
  from exec_fuel_agree[OF e1 n1 e2 n2] show ?thesis .
next
  case False
  with assms show ?thesis
    by (simp add: simulate_def env_run_def env_process_def new_env_def schedule_def)
qed

lemma state_after_Suc:
  "state_after n a m d r (Suc k) =
     (case exec (mk_params n a m r) k (boot d) of
        Running s \<Rightarrow> state_of (step (mk_params n a m r) s)
      | out \<Rightarrow> state_of out)"
  unfolding state_after_def exec_Suc_end by (simp split: outcome.splits)

lemma time_inv_boot: "0 < d \<Longrightarrow> time_inv (boot d)"
  by (simp add: boot_eq time_inv_def results_ok_def)

lemma time_inv_state_after: "0 < d \<Longrightarrow> time_inv (state_after n a m d r k)"
  unfolding state_after_def
  by (rule exec_invariant[where I = time_inv]) (simp_all add: time_inv_step time_inv_boot)

subsection \<open>What each operation does to the fields\<close>

lemma schedule_fields [simp]:
  "order_id (schedule ev p dl s) = order_id s"
  "users (schedule ev p dl s) = users s"
  "put_queue (schedule ev p dl s) = put_queue s"
  "usage_since (schedule ev p dl s) = usage_since s"
  "results (schedule ev p dl s) = results s"
  "request_log (schedule ev p dl s) = request_log s"
  "draws (schedule ev p dl s) = draws s"
  "queue (schedule ev p dl s) = heappush (now s + dl, p, eid s, ev) (queue s)"
  "scheduled (schedule ev p dl s) = scheduled s @ [ev]"
  by (simp_all add: schedule_def)

lemma release_fields [simp]:
  "order_id (release oid s) = order_id s"
  "put_queue (release oid s) = put_queue s"
  "usage_since (release oid s) = usage_since s"
  "results (release oid s) = results s"
  "request_log (release oid s) = request_log s"
  "draws (release oid s) = draws s"
  "queue (release oid s) = heappush (now s, NORMAL, eid s, ReleaseEvent) (queue s)"
  "scheduled (release oid s) = scheduled s @ [ReleaseEvent]"
  by (simp_all add: release_def)

lemma fail_fields [simp]:
  "order_id (fail e s) = order_id s"
  "users (fail e s) = users s"
  "put_queue (fail e s) = put_queue s"
  "usage_since (fail e s) = usage_since s"
  "results (fail e s) = results s"
  "request_log (fail e s) = request_log s"
  "draws (fail e s) = draws s"
  "queue (fail e s) = heappush (now s, NORMAL, eid s, ProcessFailed e) (queue s)"
  "scheduled (fail e s) = scheduled s @ [ProcessFailed e]"
  by (simp_all add: fail_def)

lemma arrival_wait_fields [simp]:
  "now (arrival_wait P s) = now s"
  "order_id (arrival_wait P s) = order_id s"
  "users (arrival_wait P s) = users s"
  "put_queue (arrival_wait P s) = put_queue s"
  "usage_since (arrival_wait P s) = usage_since s"
  "results (arrival_wait P s) = results s"
  "request_log (arrival_wait P s) = request_log s"
  by (simp_all add: arrival_wait_def Let_def timeout_def split: sum.splits)

lemma trigger_put_fields [simp]:
  "now (trigger_put P s) = now s"
  "order_id (trigger_put P s) = order_id s"
  "results (trigger_put P s) = results s"
  "request_log (trigger_put P s) = request_log s"
  "draws (trigger_put P s) = draws s"
  by (simp_all add: trigger_put_def split: list.splits)

lemma request_fields [simp]:
  "now (request P oid arr s) = now s"
  "order_id (request P oid arr s) = order_id s"
  "results (request P oid arr s) = results s"
  "request_log (request P oid arr s) = request_log s @ [oid]"
  "draws (request P oid arr s) = draws s"
  by (simp_all add: request_def)

lemma start_service_fields [simp]:
  "now (start_service P oid arr s) = now s"
  "order_id (start_service P oid arr s) = order_id s"
  "put_queue (start_service P oid arr s) = put_queue s"
  "usage_since (start_service P oid arr s) = usage_since s"
  "results (start_service P oid arr s) = results s"
  "request_log (start_service P oid arr s) = request_log s"
  by (simp_all add: start_service_def Let_def timeout_def split: sum.splits)

lemma finish_order_fields [simp]:
  "now (finish_order oid arr w s) = now s"
  "order_id (finish_order oid arr w s) = order_id s"
  "put_queue (finish_order oid arr w s) = put_queue s"
  "usage_since (finish_order oid arr w s) = usage_since s"
  "request_log (finish_order oid arr w s) = request_log s"
  "draws (finish_order oid arr w s) = draws s"
  "results (finish_order oid arr w s) =
     \<lparr>wait_times = wait_times (results s) @ [w],
      system_times = system_times (results s) @ [now s - arr],
      completed_orders = completed_orders (results s) @ [oid]\<rparr>"
  by (simp_all add: finish_order_def Let_def)

lemma spawn_order_fields [simp]:
  "now (spawn_order P s) = now s"
  "order_id (spawn_order P s) = order_id s + 1"
  "users (spawn_order P s) = users s"
  "put_queue (spawn_order P s) = put_queue s"
  "usage_since (spawn_order P s) = usage_since s"
  "results (spawn_order P s) = results s"
  "request_log (spawn_order P s) = request_log s"
  by (simp_all add: spawn_order_def Let_def)

lemma start_arrivals_fields [simp]:
  "now (start_arrivals P s) = now s"
  "users (start_arrivals P s) = users s"
  "put_queue (start_arrivals P s) = put_queue s"
  "usage_since (start_arrivals P s) = usage_since s"
  "results (start_arrivals P s) = results s"
  "request_log (start_arrivals P s) = request_log s"
  by (simp_all add: start_arrivals_def)

subsection \<open>The queue stays in key order\<close>

text \<open>
  So the entry that a step pops, the head of the list, is the least entry of the queue,
  as the head of the engine's heap is.
\<close>

lemma key_less_trans: "key_less a b \<Longrightarrow> key_less b c \<Longrightarrow> key_less a c"
  by (cases a; cases b; cases c) auto

lemma key_less_asym: "key_less a b \<Longrightarrow> \<not> key_less b a"
  by (cases a; cases b) auto

lemma key_order_heappush:
  "sorted_wrt (\<lambda>x y. \<not> key_less y x) q \<Longrightarrow> sorted_wrt (\<lambda>x y. \<not> key_less y x) (heappush e q)"
proof (induction q)
  case Nil
  then show ?case by simp
next
  case (Cons x xs)
  show ?case
  proof (cases "key_less e x")
    case True
    have "\<not> key_less y e" if "y \<in> set (x # xs)" for y
    proof
      assume "key_less y e"
      from this True have "key_less y x" by (rule key_less_trans)
      with that Cons.prems True show False by (auto dest: key_less_asym)
    qed
    with Cons.prems True show ?thesis by simp
  next
    case False
    with Cons show ?thesis by (auto simp: set_heappush)
  qed
qed

lemma key_sorted_schedule: "key_sorted s \<Longrightarrow> key_sorted (schedule ev p dl s)"
  by (simp add: key_sorted_def key_order_heappush)

lemma key_sorted_frame: "key_sorted s \<Longrightarrow> queue s' = queue s \<Longrightarrow> key_sorted s'"
  by (simp add: key_sorted_def)

lemma key_sorted_fail: "key_sorted s \<Longrightarrow> key_sorted (fail e s)"
  by (simp add: fail_def key_sorted_schedule)

lemma key_sorted_release: "key_sorted s \<Longrightarrow> key_sorted (release oid s)"
  unfolding release_def by (rule key_sorted_schedule) (simp add: key_sorted_def)

lemma key_sorted_trigger_put: "key_sorted s \<Longrightarrow> key_sorted (trigger_put P s)"
  by (simp add: key_sorted_def trigger_put_def key_order_heappush split: list.splits)

lemma key_sorted_request: "key_sorted s \<Longrightarrow> key_sorted (request P oid arr s)"
  unfolding request_def by (rule key_sorted_trigger_put) (simp add: key_sorted_def)

lemma key_sorted_arrival_wait: "key_sorted s \<Longrightarrow> key_sorted (arrival_wait P s)"
  by (simp add: key_sorted_def arrival_wait_def Let_def timeout_def key_order_heappush
        split: sum.splits)

lemma key_sorted_start_service: "key_sorted s \<Longrightarrow> key_sorted (start_service P oid arr s)"
  by (simp add: key_sorted_def start_service_def Let_def timeout_def key_order_heappush
        split: sum.splits)

lemma key_sorted_finish_order: "key_sorted s \<Longrightarrow> key_sorted (finish_order oid arr w s)"
  unfolding finish_order_def Let_def
  by (intro key_sorted_schedule key_sorted_release) (simp add: key_sorted_def)

lemma key_sorted_spawn_order: "key_sorted s \<Longrightarrow> key_sorted (spawn_order P s)"
  unfolding spawn_order_def Let_def
  by (intro key_sorted_arrival_wait key_sorted_schedule) (simp add: key_sorted_def)

lemma key_sorted_start_arrivals: "key_sorted s \<Longrightarrow> key_sorted (start_arrivals P s)"
  using key_sorted_arrival_wait[of "s\<lparr>order_id := 0\<rparr>" P]
  by (simp add: start_arrivals_def key_sorted_fail) (simp add: key_sorted_def)

lemma key_sorted_fire: "key_sorted s \<Longrightarrow> key_sorted (state_of (fire P ev s))"
  by (cases ev)
     (simp_all add: key_sorted_start_arrivals key_sorted_spawn_order key_sorted_request
        key_sorted_start_service key_sorted_finish_order key_sorted_trigger_put)

lemma key_sorted_step: "key_sorted s \<Longrightarrow> key_sorted (state_of (step P s))"
proof (cases "queue s")
  case Nil
  assume "key_sorted s"
  then show ?thesis using Nil by (simp add: step_def)
next
  case (Cons x q)
  assume ks: "key_sorted s"
  obtain t p i ev where x: "x = (t, p, i, ev)" by (cases x)
  from ks Cons have "key_sorted (s\<lparr>now := t, queue := q\<rparr>)" by (simp add: key_sorted_def)
  from key_sorted_fire[OF this] Cons x show ?thesis by (simp add: step_def)
qed

lemma key_sorted_state_after: "key_sorted (state_after n a m d r k)"
  unfolding state_after_def
proof (rule exec_invariant[where I = key_sorted])
  show "key_sorted (boot d)"
    unfolding boot_def stop_scheduled_def env_process_def
    by (intro key_sorted_schedule) (simp add: key_sorted_def new_env_def)
qed (rule key_sorted_step)

lemma head_is_least:
  assumes "key_sorted s" "queue s = x # q" "y \<in> set q"
  shows "\<not> key_less y x"
  using assms by (auto simp: key_sorted_def)

subsection \<open>Order ids\<close>

lemma spawned_ids_update [simp]:
  "spawned_ids (s\<lparr>now := t\<rparr>) = spawned_ids s"
  "spawned_ids (s\<lparr>queue := q\<rparr>) = spawned_ids s"
  "spawned_ids (s\<lparr>draws := k\<rparr>) = spawned_ids s"
  "spawned_ids (s\<lparr>order_id := i\<rparr>) = spawned_ids s"
  "spawned_ids (s\<lparr>users := us\<rparr>) = spawned_ids s"
  "spawned_ids (s\<lparr>put_queue := pq\<rparr>) = spawned_ids s"
  "spawned_ids (s\<lparr>usage_since := g\<rparr>) = spawned_ids s"
  "spawned_ids (s\<lparr>results := rs\<rparr>) = spawned_ids s"
  "spawned_ids (s\<lparr>request_log := l\<rparr>) = spawned_ids s"
  by (simp_all add: spawned_ids_def)

lemma spawned_ids_schedule [simp]:
  "spawned_ids (schedule ev p dl s) = spawned_ids s @ handler_id ev"
  by (simp add: spawned_ids_def)

lemma spawned_ids_fail [simp]: "spawned_ids (fail e s) = spawned_ids s"
  by (simp add: fail_def)

lemma spawned_ids_release [simp]: "spawned_ids (release oid s) = spawned_ids s"
  by (simp add: release_def)

lemma spawned_ids_arrival_wait [simp]: "spawned_ids (arrival_wait P s) = spawned_ids s"
  by (simp add: arrival_wait_def Let_def timeout_def split: sum.splits)

lemma spawned_ids_trigger_put [simp]: "spawned_ids (trigger_put P s) = spawned_ids s"
  by (simp add: trigger_put_def split: list.splits)

lemma spawned_ids_request [simp]: "spawned_ids (request P oid arr s) = spawned_ids s"
  by (simp add: request_def)

lemma spawned_ids_start_service [simp]:
  "spawned_ids (start_service P oid arr s) = spawned_ids s"
  by (simp add: start_service_def Let_def timeout_def split: sum.splits)

lemma spawned_ids_finish_order [simp]:
  "spawned_ids (finish_order oid arr w s) = spawned_ids s"
  by (simp add: finish_order_def Let_def)

lemma spawned_ids_spawn_order [simp]:
  "spawned_ids (spawn_order P s) = spawned_ids s @ [order_id s + 1]"
  by (simp add: spawn_order_def Let_def)

lemma spawned_ids_start_arrivals [simp]:
  "spawned_ids (start_arrivals P s) = spawned_ids s"
  by (simp add: start_arrivals_def)

lemma queue_ids_heappush [simp]: "mset (queue_ids (heappush e q)) = mset (event_ids (entry_event e)) + mset (queue_ids q)"
  by (induction q) (auto simp: queue_ids_def)

lemma queue_ids_Cons: "queue_ids (e # q) = event_ids (entry_event e) @ queue_ids q"
  by (simp add: queue_ids_def)

lemma no_init_schedule: "no_init s \<Longrightarrow> ev \<noteq> InitArrival \<Longrightarrow> no_init (schedule ev p dl s)"
  by (auto simp: no_init_def set_heappush)

lemma pending_schedule:
  "mset (pending_orders (schedule ev p dl s)) = mset (event_ids ev) + mset (pending_orders s)"
  by (simp add: pending_orders_def queue_ids_heappush)

lemma pending_fail [simp]: "mset (pending_orders (fail e s)) = mset (pending_orders s)"
  by (simp add: fail_def pending_schedule)

lemma no_init_fail: "no_init s \<Longrightarrow> no_init (fail e s)"
  by (simp add: fail_def no_init_schedule)

lemma pending_release [simp]: "mset (pending_orders (release oid s)) = mset (pending_orders s)"
  by (simp add: pending_orders_def queue_ids_heappush)

lemma no_init_release: "no_init s \<Longrightarrow> no_init (release oid s)"
  by (auto simp: no_init_def set_heappush)

lemma pending_arrival_wait [simp]:
  "mset (pending_orders (arrival_wait P s)) = mset (pending_orders s)"
  by (simp add: arrival_wait_def Let_def timeout_def pending_schedule pending_orders_def split: sum.splits)

lemma no_init_arrival_wait: "no_init s \<Longrightarrow> no_init (arrival_wait P s)"
  by (auto simp: arrival_wait_def Let_def timeout_def no_init_def set_heappush split: sum.splits)

lemma pending_trigger_put [simp]:
  "mset (pending_orders (trigger_put P s)) = mset (pending_orders s)"
  by (simp add: trigger_put_def pending_orders_def queue_ids_heappush split: list.splits)

lemma no_init_trigger_put: "no_init s \<Longrightarrow> no_init (trigger_put P s)"
  by (auto simp: trigger_put_def no_init_def set_heappush split: list.splits)

lemma pending_request [simp]:
  "mset (pending_orders (request P oid arr s)) = add_mset oid (mset (pending_orders s))"
  by (simp add: request_def) (simp add: pending_orders_def)

lemma no_init_request: "no_init s \<Longrightarrow> no_init (request P oid arr s)"
  unfolding request_def by (rule no_init_trigger_put) (simp add: no_init_def)

lemma pending_start_service:
  "mset (pending_orders (start_service P oid arr s)) \<subseteq># add_mset oid (mset (pending_orders s))"
  by (simp add: start_service_def Let_def timeout_def pending_schedule pending_orders_def
                queue_ids_heappush split: sum.splits)

lemma no_init_start_service: "no_init s \<Longrightarrow> no_init (start_service P oid arr s)"
  by (auto simp: start_service_def Let_def timeout_def no_init_def set_heappush split: sum.splits)

lemma pending_finish_order [simp]:
  "mset (pending_orders (finish_order oid arr w s)) = mset (pending_orders s)"
  by (simp add: finish_order_def Let_def pending_schedule) (simp add: pending_orders_def)

lemma no_init_finish_order: "no_init s \<Longrightarrow> no_init (finish_order oid arr w s)"
  by (auto simp: finish_order_def Let_def no_init_def set_heappush)

lemma pending_spawn_order [simp]:
  "mset (pending_orders (spawn_order P s)) = add_mset (order_id s + 1) (mset (pending_orders s))"
  by (simp add: spawn_order_def Let_def pending_schedule) (simp add: pending_orders_def)

lemma no_init_spawn_order: "no_init s \<Longrightarrow> no_init (spawn_order P s)"
  unfolding spawn_order_def Let_def
  by (intro no_init_arrival_wait no_init_schedule) (simp_all add: no_init_def)

lemma no_init_order_id [simp]: "no_init (s\<lparr>order_id := k\<rparr>) = no_init s"
  by (simp add: no_init_def)

lemma no_init_start_arrivals: "no_init s \<Longrightarrow> no_init (start_arrivals P s)"
  by (simp add: start_arrivals_def no_init_fail no_init_arrival_wait)

lemma pending_start_arrivals [simp]:
  "mset (pending_orders (start_arrivals P s)) = mset (pending_orders s)"
  by (simp add: start_arrivals_def) (simp add: pending_orders_def)

lemma order_id_start_arrivals: "order_id s = 0 \<Longrightarrow> order_id (start_arrivals P s) = 0"
  by (simp add: start_arrivals_def)

lemma upto_snoc: "0 \<le> k \<Longrightarrow> [1..k + 1] = [1..k] @ [k + 1]"
  by (simp add: upto_rec2)

lemma ids_inv_fire:
  assumes inv: "no_init s" "0 \<le> order_id s" "spawned_ids s = [1..order_id s]"
    and acc: "mset (event_ids ev) + accounted s \<subseteq># mset (spawned_ids s)"
    and ev: "ev \<noteq> InitArrival"
  shows "ids_inv (state_of (fire P ev s))"
proof (cases ev)
  case InitArrival
  with ev show ?thesis by simp
next
  case ArrivalTimeout
  have "accounted (spawn_order P s) = add_mset (order_id s + 1) (accounted s)"
    by (simp add: accounted_def)
  moreover have "accounted s \<subseteq># mset (spawned_ids s)"
    using acc ArrivalTimeout by simp
  ultimately have "accounted (spawn_order P s) \<subseteq># mset (spawned_ids (spawn_order P s))"
    by simp
  with inv ArrivalTimeout show ?thesis
    by (simp add: ids_inv_def no_init_spawn_order upto_snoc)
next
  case (InitHandler oid)
  have "accounted (request P oid (now s) s) = add_mset oid (accounted s)"
    by (simp add: accounted_def)
  with inv acc InitHandler show ?thesis
    by (simp add: ids_inv_def no_init_request)
next
  case (RequestEvent oid arr)
  have "accounted (start_service P oid arr s) \<subseteq># add_mset oid (accounted s)"
    using pending_start_service[of P oid arr s] by (simp add: accounted_def)
  also have "\<dots> \<subseteq># mset (spawned_ids s)" using acc RequestEvent by simp
  finally show ?thesis using inv RequestEvent
    by (simp add: ids_inv_def no_init_start_service)
next
  case (ServiceTimeout oid arr w)
  have "accounted (finish_order oid arr w s) = add_mset oid (accounted s)"
    by (simp add: accounted_def)
  with inv acc ServiceTimeout show ?thesis
    by (simp add: ids_inv_def no_init_finish_order)
next
  case ReleaseEvent
  have "accounted (trigger_put P s) = accounted s" by (simp add: accounted_def)
  with inv acc ReleaseEvent show ?thesis
    by (simp add: ids_inv_def no_init_trigger_put)
next
  case ProcessEnded
  with inv acc show ?thesis by (simp add: ids_inv_def)
next
  case (ProcessFailed e)
  with inv acc show ?thesis by (simp add: ids_inv_def)
next
  case Until
  with inv acc show ?thesis by (simp add: ids_inv_def)
qed

lemma ids_inv_step: "ids_inv s \<Longrightarrow> ids_inv (state_of (step P s))"
proof (cases "queue s")
  case Nil
  assume "ids_inv s"
  then show ?thesis using Nil by (simp add: step_def)
next
  case (Cons x q)
  assume inv: "ids_inv s"
  obtain t p i ev where x: "x = (t, p, i, ev)" by (cases x)
  let ?s = "s\<lparr>now := t, queue := q\<rparr>"
  have ev: "ev \<noteq> InitArrival" using inv Cons x by (auto simp: ids_inv_def no_init_def)
  have ni: "no_init ?s" using inv Cons by (auto simp: ids_inv_def no_init_def)
  have "mset (event_ids ev) + accounted ?s = accounted s"
    using Cons x by (simp add: accounted_def pending_orders_def queue_ids_Cons)
  moreover from inv have "accounted s \<subseteq># mset (spawned_ids s)"
    unfolding ids_inv_def by blast
  ultimately have acc: "mset (event_ids ev) + accounted ?s \<subseteq># mset (spawned_ids ?s)"
    by simp
  from inv have "0 \<le> order_id ?s" "spawned_ids ?s = [1..order_id ?s]"
    unfolding ids_inv_def by simp_all
  from ids_inv_fire[OF ni this acc ev]
  have "ids_inv (state_of (fire P ev ?s))" .
  with Cons x show ?thesis by (simp add: step_def)
qed

lemma ids_inv_first:
  assumes "0 < d"
  shows "ids_inv (start_arrivals P ((boot d)\<lparr>queue := [(d, 0, 1, Until)]\<rparr>))"
proof -
  let ?s = "(boot d)\<lparr>queue := [(d, 0, 1, Until)]\<rparr>"
  have ni: "no_init ?s" by (simp add: no_init_def)
  have oid: "order_id ?s = 0" and sl: "spawned_ids ?s = []"
    using assms by (simp_all add: boot_eq spawned_ids_def)
  have "accounted ?s = {#}"
    using assms by (simp add: boot_eq accounted_def pending_orders_def queue_ids_def)
  then have "accounted (start_arrivals P ?s) = {#}" by (simp add: accounted_def)
  with no_init_start_arrivals[OF ni] order_id_start_arrivals[OF oid] sl
  show ?thesis by (simp add: ids_inv_def)
qed

lemma ids_ok_state_after:
  assumes "0 < d"
  shows "ids_ok (state_after n a m d r k)"
proof (cases k)
  case 0
  then show ?thesis using assms
    by (simp add: state_after_def boot_eq ids_ok_def accounted_def pending_orders_def
          queue_ids_def spawned_ids_def)
next
  case (Suc j)
  let ?P = "mk_params n a m r"
  let ?s1 = "start_arrivals ?P ((boot d)\<lparr>queue := [(d, 0, 1, Until)]\<rparr>)"
  have "state_after n a m d r k = state_of (exec ?P j ?s1)"
    using Suc step_boot[OF assms, of ?P] by (simp add: state_after_def)
  moreover have "ids_inv (state_of (exec ?P j ?s1))"
    using ids_inv_step ids_inv_first[OF assms] by (rule exec_invariant[where I = ids_inv])
  ultimately have "ids_inv (state_after n a m d r k)" by simp
  then show ?thesis unfolding ids_inv_def ids_ok_def by blast
qed

lemma pending_not_completed:
  assumes "ids_ok s" "oid \<in> set (pending_orders s)"
  shows "oid \<notin> set (completed_orders (results s))"
proof
  assume c: "oid \<in> set (completed_orders (results s))"
  from assms(1) have e: "spawned_ids s = [1..order_id s]"
    and a: "accounted s \<subseteq># mset (spawned_ids s)"
    unfolding ids_ok_def by blast+
  from a have sub: "accounted s \<subseteq># mset [1..order_id s]"
    unfolding e .
  have "count (mset (pending_orders s)) oid \<ge> 1"
    using assms(2) by (simp add: Suc_le_eq)
  moreover have "count (mset (completed_orders (results s))) oid \<ge> 1"
    using c by (simp add: Suc_le_eq)
  moreover have "count (accounted s) oid =
      count (mset (pending_orders s)) oid + count (mset (completed_orders (results s))) oid"
    by (simp add: accounted_def)
  ultimately have "count (accounted s) oid \<ge> 2" by linarith
  moreover have "count (accounted s) oid \<le> count (mset [1..order_id s]) oid"
    using sub by (rule mset_subset_eq_count)
  moreover have "count (mset [1..order_id s]) oid \<le> 1"
    using distinct_upto[of 1 "order_id s"] by (simp add: distinct_count_atmost_1)
  ultimately show False by linarith
qed

lemma distinct_submultiset:
  assumes "mset xs \<subseteq># mset ys" "distinct ys"
  shows "distinct xs"
proof -
  have "count (mset xs) a \<le> 1" for a
  proof -
    have "count (mset xs) a \<le> count (mset ys) a"
      using assms(1) by (rule mset_subset_eq_count)
    also have "\<dots> \<le> 1" using assms(2) by (simp add: distinct_count_atmost_1)
    finally show ?thesis .
  qed
  then show ?thesis
    unfolding distinct_count_atmost_1 by (metis count_mset_0_iff le_neq_implies_less less_one)
qed

lemma ids_ok_held:
  assumes "ids_ok s"
  shows "distinct (pending_orders s @ completed_orders (results s))"
    and "set (pending_orders s @ completed_orders (results s)) \<subseteq> set (spawned_ids s)"
proof -
  from assms have e: "spawned_ids s = [1..order_id s]"
    and a: "accounted s \<subseteq># mset (spawned_ids s)"
    unfolding ids_ok_def by blast+
  have m: "mset (pending_orders s @ completed_orders (results s)) \<subseteq># mset (spawned_ids s)"
    using a by (simp add: accounted_def)
  have "distinct (spawned_ids s)" unfolding e by simp
  with m show "distinct (pending_orders s @ completed_orders (results s))"
    by (rule distinct_submultiset)
  from set_mset_mono[OF m]
  show "set (pending_orders s @ completed_orders (results s)) \<subseteq> set (spawned_ids s)"
    by simp
qed

subsection \<open>The resource queue\<close>

lemma fifo_inv_frame:
  assumes "fifo_inv s" "request_log s' = request_log s" "usage_since s' = usage_since s"
    "put_queue s' = put_queue s" "now s \<le> now s'"
  shows "fifo_inv s'"
  using assms by (fastforce simp: fifo_inv_def)

lemma fifo_inv_trigger_put: "fifo_inv s \<Longrightarrow> fifo_inv (trigger_put P s)"
  by (auto simp: fifo_inv_def trigger_put_def sorted_append split: list.splits)

lemma fifo_inv_request: "fifo_inv s \<Longrightarrow> fifo_inv (request P oid arr s)"
  unfolding request_def by (rule fifo_inv_trigger_put) (simp add: fifo_inv_def)

lemma fifo_inv_fire: "fifo_inv s \<Longrightarrow> fifo_inv (state_of (fire P ev s))"
proof (cases ev)
  case (InitHandler oid)
  assume "fifo_inv s"
  then show ?thesis using InitHandler by (simp add: fifo_inv_request)
next
  case ReleaseEvent
  assume "fifo_inv s"
  then show ?thesis using ReleaseEvent by (simp add: fifo_inv_trigger_put)
qed (auto elim!: fifo_inv_frame)

lemma fifo_inv_step:
  assumes "time_inv s" "fifo_inv s"
  shows "fifo_inv (state_of (step P s))"
proof (cases "queue s")
  case Nil
  then show ?thesis using assms by (simp add: step_def)
next
  case (Cons x q)
  obtain t p i ev where x: "x = (t, p, i, ev)" by (cases x)
  from time_inv_pop[OF assms(1)] Cons x have "now s \<le> t" by simp
  with assms(2) have "fifo_inv (s\<lparr>now := t, queue := q\<rparr>)"
    by (auto elim!: fifo_inv_frame)
  from fifo_inv_fire[OF this] Cons x show ?thesis by (simp add: step_def)
qed

lemma fifo_inv_boot: "0 < d \<Longrightarrow> fifo_inv (boot d)"
  by (simp add: boot_eq fifo_inv_def)

lemma fifo_inv_state_after:
  assumes "0 < d"
  shows "fifo_inv (state_after n a m d r k)"
proof -
  have "time_inv (state_after n a m d r k) \<and> fifo_inv (state_after n a m d r k)"
    unfolding state_after_def
    by (rule exec_invariant[where I = "\<lambda>s. time_inv s \<and> fifo_inv s"])
       (simp_all add: time_inv_step fifo_inv_step time_inv_boot fifo_inv_boot assms)
  then show ?thesis ..
qed

subsection \<open>The results\<close>

lemma appended_once_refl: "appended_once s s"
  by (simp add: appended_once_def)

lemma appended_once_step: "appended_once s (state_of (step P s))"
proof (cases "queue s")
  case Nil
  then show ?thesis by (simp add: step_def appended_once_def)
next
  case (Cons x q)
  obtain t p i ev where x: "x = (t, p, i, ev)" by (cases x)
  show ?thesis
  proof (cases ev)
    case (ServiceTimeout oid arr w)
    have "oid \<in> set (pending_orders s)"
      using Cons x ServiceTimeout by (simp add: pending_orders_def queue_ids_Cons)
    then show ?thesis
      using Cons x ServiceTimeout by (auto simp: step_def appended_once_def)
  qed (use Cons x in \<open>simp_all add: step_def appended_once_def\<close>)
qed

lemma appended_once_state_after:
  "appended_once (state_after n a m d r k) (state_after n a m d r (Suc k))"
  unfolding state_after_Suc
  by (cases "exec (mk_params n a m r) k (boot d)")
     (simp_all add: state_after_def appended_once_step appended_once_refl)

subsection \<open>Two concrete runs\<close>

text \<open>
  The short run: one driver, arrival rate 1, mean service time 1, horizon 3, every unit
  sample 1. Order 1 arrives at time 1 and is served until time 2; order 2 arrives at
  time 2 and would complete at time 3, where the stop event comes first.

  The queued run: one driver, rates 1, horizon 6, unit samples 1 except the third
  (the service time of order 1), which is 3. Orders arrive at times 1, 2, 3, 4, 5.
  Order 1 is served from 1 to 4, order 2 (waiting since 2) from 4 to 5, order 3
  (waiting since 3) from 5 on; orders 4 and 5 still wait at the horizon.
\<close>

lemma short_run:
  "run_simulation 1 1 1 3 (\<lambda>_. 1) 20 =
     Some (Inr (0, 1, 20, \<lparr>wait_times = [0], system_times = [1], completed_orders = [1]\<rparr>))"
  by code_simp

lemma queued_run:
  "run_simulation 1 1 1 6 (\<lambda>i. if i = 2 then 3 else 1) 40 =
     Some (Inr (1, 3, 20, \<lparr>wait_times = [0, 2], system_times = [3, 3],
                            completed_orders = [1, 2]\<rparr>))"
  by code_simp

lemma queued_state:
  "state_after 1 1 1 6 (\<lambda>i. if i = 2 then 3 else 1) 40 =
     \<lparr>now = 6, eid = 23,
      queue = [(6, 1, 18, ArrivalTimeout), (6, 1, 22, ServiceTimeout 3 3 2)],
      draws = 9, order_id = 5, users = [3], put_queue = [(4, 4), (5, 5)],
      usage_since = [(1, 1), (2, 4), (3, 5)],
      results = \<lparr>wait_times = [0, 2], system_times = [3, 3], completed_orders = [1, 2]\<rparr>,
      scheduled =
        [InitArrival, Until, ArrivalTimeout, InitHandler 1, ArrivalTimeout,
         RequestEvent 1 1, ServiceTimeout 1 1 0, InitHandler 2,
         ArrivalTimeout, InitHandler 3, ArrivalTimeout, ReleaseEvent,
         ProcessEnded, InitHandler 4, ArrivalTimeout, RequestEvent 2 2,
         ServiceTimeout 2 2 2, InitHandler 5, ArrivalTimeout, ReleaseEvent,
         ProcessEnded, RequestEvent 3 3, ServiceTimeout 3 3 2],
      request_log = [1, 2, 3, 4, 5]\<rparr>"
  by code_simp

lemma queued_state_16:
  "state_after 1 1 1 6 (\<lambda>i. if i = 2 then 3 else 1) 16 =
     \<lparr>now = 5, eid = 19,
      queue = [(5, 1, 16, ServiceTimeout 2 2 2), (6, 0, 1, Until), (6, 1, 18, ArrivalTimeout)],
      draws = 8, order_id = 5, users = [2], put_queue = [(3, 3), (4, 4), (5, 5)],
      usage_since = [(1, 1), (2, 4)],
      results = \<lparr>wait_times = [0], system_times = [3], completed_orders = [1]\<rparr>,
      scheduled =
        [InitArrival, Until, ArrivalTimeout, InitHandler 1, ArrivalTimeout,
         RequestEvent 1 1, ServiceTimeout 1 1 0, InitHandler 2,
         ArrivalTimeout, InitHandler 3, ArrivalTimeout, ReleaseEvent,
         ProcessEnded, InitHandler 4, ArrivalTimeout, RequestEvent 2 2,
         ServiceTimeout 2 2 2, InitHandler 5, ArrivalTimeout],
      request_log = [1, 2, 3, 4, 5]\<rparr>"
  by code_simp

lemma queued_spawned:
  "spawned_ids (state_after 1 1 1 6 (\<lambda>i. if i = 2 then 3 else 1) 40) = [1, 2, 3, 4, 5]"
  by (simp add: queued_state spawned_ids_def)

lemma queued_state_17:
  "results (state_after 1 1 1 6 (\<lambda>i. if i = 2 then 3 else 1) 17) =
     \<lparr>wait_times = [0, 2], system_times = [3, 3], completed_orders = [1, 2]\<rparr>"
  by code_simp

section \<open>The claims\<close>

subsection \<open>C1: throughput\<close>

text \<open>
  C1 (as amended). Whenever \<open>run_simulation\<close> returns, the throughput it returns is the
  number of completed orders divided by \<open>sim_duration / 60\<close> (line 58): orders per hour
  for a horizon in minutes, sixty times the number of completed orders per unit of
  virtual time.
\<close>

theorem throughput_per_hour:
  assumes "run_simulation n a m d r fuel = Some (Inr (avg_wait, avg_system, throughput, res))"
  shows "throughput = of_nat (length (completed_orders res)) / (d / 60)"
  using assms
  by (auto simp: run_simulation_def summarise_def py_div_def
           split: option.splits outcome.splits sum.splits if_splits)

theorem throughput_per_hour_witness:
  "run_simulation 1 1 1 3 (\<lambda>_. 1) 20 =
     Some (Inr (0, 1, 20, \<lparr>wait_times = [0], system_times = [1], completed_orders = [1]\<rparr>))
   \<and> (20::rat) = of_nat (length (completed_orders
        \<lparr>wait_times = [0], system_times = [1], completed_orders = [1]\<rparr>)) / (3 / 60)"
proof -
  have h: "run_simulation 1 1 1 3 (\<lambda>_. 1) 20 =
     Some (Inr (0, 1, 20, \<lparr>wait_times = [0], system_times = [1], completed_orders = [1]\<rparr>))"
    by code_simp
  from throughput_per_hour[OF h] h show ?thesis by simp
qed

text \<open>
  C1 as stated fails. One driver, arrival rate 1, mean service time 1, horizon 3 and
  every unit sample equal to 1: the first order arrives at time 1 and completes at
  time 2, the second completes only at time 3, where the stop event comes first. One
  order is completed, the horizon is 3, and the throughput returned is 20, not 1/3.
\<close>

theorem throughput_not_per_unit_time:
  "run_simulation 1 1 1 3 (\<lambda>_. 1) 20 =
     Some (Inr (0, 1, 20, \<lparr>wait_times = [0], system_times = [1], completed_orders = [1]\<rparr>))
   \<and> (20::rat) \<noteq> of_nat (length [1::int]) / 3"
proof -
  have h: "run_simulation 1 1 1 3 (\<lambda>_. 1) 20 =
     Some (Inr (0, 1, 20, \<lparr>wait_times = [0], system_times = [1], completed_orders = [1]\<rparr>))"
    by code_simp
  then show ?thesis by simp
qed

subsection \<open>C2: horizon 0\<close>

text \<open>
  C2 (as amended). With horizon 0 the run fails: \<open>env.run(until=0)\<close> raises a
  \<open>ValueError\<close>, since the horizon does not lie after the clock, which stands at 0.
  Nothing is returned, whatever the other arguments, the random source and the fuel.
\<close>

theorem zero_horizon_rejected:
  "run_simulation n a m 0 r fuel = Some (Inl (ValueError UntilNotAfterNow))"
  by (simp add: run_simulation_def simulate_def env_run_def env_process_def new_env_def schedule_def)

text \<open>
  C2 as stated fails: with one driver, rates 1 and horizon 0 the run returns no
  summary at all, so not one whose means are 0.
\<close>

theorem zero_horizon_no_results:
  "run_simulation 1 1 1 0 (\<lambda>_. 1) 20 = Some (Inl (ValueError UntilNotAfterNow)) \<and>
   \<not> (\<exists>res thr. run_simulation 1 1 1 0 (\<lambda>_. 1) 20 = Some (Inr (0, 0, thr, res)))"
proof -
  have h: "run_simulation 1 1 1 0 (\<lambda>_. 1) 20 = Some (Inl (ValueError UntilNotAfterNow))"
    by code_simp
  then show ?thesis by simp
qed

subsection \<open>C3: invalid configuration\<close>

text \<open>
  C3 (as amended). With a number of drivers that is not positive, or with a negative
  horizon, the run fails with a \<open>ValueError\<close> and returns nothing (two steps of the
  engine are enough). The failure does not come before all scheduling. The start of
  \<open>food_delivery\<close> is scheduled by line 53 before \<open>env.run\<close> looks at the horizon, so
  when a horizon that is not positive is rejected that one event has been scheduled and
  none has been processed. Otherwise the stop event is scheduled as well, the start
  event is processed, \<open>simpy.Resource\<close> rejects the capacity inside the generator, and
  the failure of the process is itself scheduled as an event and raised by the next
  step. These are the only events scheduled: no timeout of an arrival or a service and
  no grant. At the failure the clock stands at 0, no random draw has been made, no
  request has been made, and the results are empty.
\<close>

theorem invalid_configuration_fails:
  assumes "n \<le> 0 \<or> d < 0" and "2 \<le> fuel"
  shows "\<exists>v s. simulate n a m d r fuel = Some (Crashed (ValueError v) s) \<and>
           run_simulation n a m d r fuel = Some (Inl (ValueError v)) \<and>
           v = (if d \<le> 0 then UntilNotAfterNow else CapacityNotPositive) \<and>
           scheduled s =
             (if d \<le> 0 then [InitArrival]
              else [InitArrival, Until, ProcessFailed (ValueError CapacityNotPositive)]) \<and>
           eid s = length (scheduled s) \<and>
           now s = 0 \<and> draws s = 0 \<and> request_log s = [] \<and>
           results s = \<lparr>wait_times = [], system_times = [], completed_orders = []\<rparr> \<and>
           (\<forall>e \<in> set (queue s). entry_event e = InitArrival \<or> entry_event e = Until)"
proof (cases "0 < d")
  case False
  then have "simulate n a m d r fuel =
      Some (Crashed (ValueError UntilNotAfterNow) (env_process new_env))"
    by (simp add: simulate_def env_run_def env_process_def new_env_def schedule_def)
  with False show ?thesis
    by (simp add: run_simulation_def env_process_def new_env_def schedule_def)
next
  case True
  with assms(1) have n: "n \<le> 0" by simp
  from assms(2) obtain k where k: "fuel = Suc (Suc k)"
    by (metis Suc_le_D numeral_2_eq_2 Suc_le_mono)
  let ?P = "mk_params n a m r"
  let ?s0 = "(boot d)\<lparr>queue := [(d, 0, 1, Until)]\<rparr>"
  let ?s1 = "fail (ValueError CapacityNotPositive) ?s0"
  let ?s2 = "?s1\<lparr>now := 0, queue := [(d, 0, 1, Until)]\<rparr>"
  have s1: "step ?P (boot d) = Running ?s1"
    using step_boot[OF True, of ?P] n by (simp add: start_arrivals_def mk_params_def)
  have q1: "queue ?s1 = [(0, NORMAL, 2, ProcessFailed (ValueError CapacityNotPositive)), (d, 0, 1, Until)]"
    using True by (simp add: boot_eq)
  have s2: "step ?P ?s1 = Crashed (ValueError CapacityNotPositive) ?s2"
    unfolding step_def q1 by simp
  have "exec ?P fuel (boot d) = Crashed (ValueError CapacityNotPositive) ?s2"
    using s1 s2 k by simp
  then have sim: "simulate n a m d r fuel = Some (Crashed (ValueError CapacityNotPositive) ?s2)"
    using True by (simp add: simulate_exec)
  have "now ?s2 = 0" "draws ?s2 = 0" "request_log ?s2 = []"
    "scheduled ?s2 = [InitArrival, Until, ProcessFailed (ValueError CapacityNotPositive)]"
    "eid ?s2 = 3"
    "results ?s2 = \<lparr>wait_times = [], system_times = [], completed_orders = []\<rparr>"
    "\<forall>e \<in> set (queue ?s2). entry_event e = InitArrival \<or> entry_event e = Until"
    using True by (simp_all add: boot_eq fail_def schedule_def)
  with sim True show ?thesis by (simp add: run_simulation_def)
qed

theorem invalid_configuration_fails_witness:
  "((0::int) \<le> 0 \<or> (3::rat) < 0) \<and> (2::nat) \<le> 2 \<and>
   run_simulation 0 1 1 3 (\<lambda>_. 1) 2 = Some (Inl (ValueError CapacityNotPositive)) \<and>
   run_simulation 1 1 1 (-1) (\<lambda>_. 1) 2 = Some (Inl (ValueError UntilNotAfterNow))"
  using invalid_configuration_fails[of 0 3 2 1 1 "\<lambda>_. 1"]
    invalid_configuration_fails[of 1 "-1" 2 1 1 "\<lambda>_. 1"]
  by auto

text \<open>
  C3 as stated fails: the run does not fail before any event is scheduled. With no
  driver and horizon 3 the run has not failed after one step of the engine, and when it
  fails at the second step three events have been scheduled. With one driver and
  horizon \<open>-1\<close> the start of \<open>food_delivery\<close> has been scheduled when the run fails.
\<close>

theorem invalid_configuration_after_scheduling:
  "simulate 0 1 1 3 (\<lambda>_. 1) 1 = None \<and>
   simulate 0 1 1 3 (\<lambda>_. 1) 2 =
     Some (Crashed (ValueError CapacityNotPositive)
       \<lparr>now = 0, eid = 3, queue = [(3, 0, 1, Until)], draws = 0, order_id = 0,
        users = [], put_queue = [], usage_since = [],
        results = \<lparr>wait_times = [], system_times = [], completed_orders = []\<rparr>,
        scheduled = [InitArrival, Until, ProcessFailed (ValueError CapacityNotPositive)],
        request_log = []\<rparr>) \<and>
   simulate 1 1 1 (- 1) (\<lambda>_. 1) 2 =
     Some (Crashed (ValueError UntilNotAfterNow)
       \<lparr>now = 0, eid = 1, queue = [(0, 0, 0, InitArrival)], draws = 0, order_id = 0,
        users = [], put_queue = [], usage_since = [],
        results = \<lparr>wait_times = [], system_times = [], completed_orders = []\<rparr>,
        scheduled = [InitArrival], request_log = []\<rparr>)"
  by code_simp

subsection \<open>C4: the exponential draw\<close>

text \<open>
  C4 (as amended). For a unit sample \<open>u \<ge> 0\<close>: the draw fails, with a
  \<open>ZeroDivisionError\<close>, exactly when the rate is 0; for a positive rate it returns a
  sample that is not negative; for a negative rate it does not fail but returns a
  sample that is not positive. The inter-arrival draw is this draw at the arrival rate;
  the service draw is this draw at the rate \<open>1 / service_time_mean\<close>, and fails with a
  \<open>ZeroDivisionError\<close> when the mean is 0, where the rate cannot be computed.
\<close>

theorem expovariate_contract:
  assumes "0 \<le> u"
  shows "(expovariate rate u = Inl ZeroDivisionError \<longleftrightarrow> rate = 0) \<and>
         (0 < rate \<longrightarrow> (\<exists>x. expovariate rate u = Inr x \<and> 0 \<le> x)) \<and>
         (rate < 0 \<longrightarrow> (\<exists>x. expovariate rate u = Inr x \<and> x \<le> 0)) \<and>
         interarrival_draw rate u = expovariate rate u \<and>
         (sm \<noteq> 0 \<longrightarrow> service_draw sm u = expovariate (1 / sm) u) \<and>
         (sm = 0 \<longrightarrow> service_draw sm u = Inl ZeroDivisionError)"
  using assms
  by (auto simp: expovariate_def interarrival_draw_def service_draw_def
        divide_nonneg_pos divide_nonneg_neg)

theorem expovariate_contract_witness:
  "(0::rat) \<le> 1 \<and> expovariate 2 1 = Inr (1/2) \<and> expovariate 0 1 = Inl ZeroDivisionError \<and>
   service_draw 2 1 = Inr 2"
  using expovariate_contract[of 1 2 2] expovariate_contract[of 1 0 2]
  by (simp add: expovariate_def)

text \<open>
  C4 as stated fails: at the rate \<open>-1\<close> and the unit sample 1 both draws return \<open>-1\<close>,
  they do not fail.
\<close>

theorem expovariate_negative_rate:
  "expovariate (- 1) 1 = Inr (- 1) \<and> interarrival_draw (- 1) 1 = Inr (- 1) \<and>
   service_draw (- 1) 1 = Inr (- 1)"
  by (simp add: expovariate_def interarrival_draw_def service_draw_def)

subsection \<open>C5: means of no orders\<close>

text \<open>
  C5. When the engine stops at the horizon and no order has completed (the lists of
  wait times and system times are empty), \<open>run_simulation\<close> returns, and both means it
  returns are 0: \<open>statistics.mean\<close> is not called on the empty lists (lines 56-57).
\<close>

theorem empty_means_are_zero:
  assumes "simulate n a m d r fuel = Some (Stopped s)"
    and "wait_times (results s) = []" and "system_times (results s) = []"
  shows "\<exists>thr. run_simulation n a m d r fuel = Some (Inr (0, 0, thr, results s))"
proof -
  from simulate_Stopped_pos[OF assms(1)] have "d / 60 \<noteq> 0" by simp
  with assms show ?thesis
    by (simp add: run_simulation_def summarise_def py_div_def)
qed

theorem empty_means_are_zero_witness:
  "\<exists>thr. run_simulation 1 1 1 (1/2) (\<lambda>_. 1) 5 =
     Some (Inr (0, 0, thr, \<lparr>wait_times = [], system_times = [], completed_orders = []\<rparr>))"
proof -
  let ?s = "\<lparr>now = 1/2, eid = 3, queue = [(1, 1, 2, ArrivalTimeout)], draws = 1, order_id = 0,
       users = [], put_queue = [], usage_since = [],
       results = \<lparr>wait_times = [], system_times = [], completed_orders = []\<rparr>,
       scheduled = [InitArrival, Until, ArrivalTimeout], request_log = []\<rparr>"
  have h: "simulate 1 1 1 (1/2) (\<lambda>_. 1) 5 = Some (Stopped ?s)"
    by code_simp
  from empty_means_are_zero[OF h] show ?thesis by simp
qed

subsection \<open>C6: wait and system times\<close>

text \<open>
  C6. In the results that \<open>run_simulation\<close> returns, the three lists have one entry per
  completed order, and for each completed order the wait time is not negative and the
  system time is at least the wait time.
\<close>

theorem wait_and_system_times:
  assumes "run_simulation n a m d r fuel = Some (Inr (avg_wait, avg_system, throughput, res))"
  shows "length (wait_times res) = length (completed_orders res) \<and>
         length (system_times res) = length (completed_orders res) \<and>
         (\<forall>i < length (completed_orders res).
            0 \<le> wait_times res ! i \<and> wait_times res ! i \<le> system_times res ! i)"
proof -
  from run_simulation_Inr[OF assms]
  have d: "0 < d" and res: "res = results (state_after n a m d r fuel)" by simp_all
  from time_inv_state_after[OF d] res have "results_ok res" by (simp add: time_inv_def)
  then show ?thesis by (auto simp: results_ok_def list_all2_conv_all_nth)
qed

theorem wait_and_system_times_witness:
  "run_simulation 1 1 1 6 (\<lambda>i. if i = 2 then 3 else 1) 40 =
     Some (Inr (1, 3, 20, \<lparr>wait_times = [0, 2], system_times = [3, 3],
                            completed_orders = [1, 2]\<rparr>)) \<and>
   (0::rat) \<le> [0, 2] ! 0 \<and> [0, 2 :: rat] ! 0 \<le> [3, 3] ! 0 \<and>
   (0::rat) \<le> [0, 2] ! 1 \<and> [0, 2 :: rat] ! 1 \<le> [3, 3] ! 1"
  using wait_and_system_times[OF queued_run] queued_run by simp

subsection \<open>C7: order ids\<close>

text \<open>
  C7. At every point of a run, the order ids that line 29 has handed to
  \<open>handle_order\<close>, in the order of the calls, are 1, 2, 3, ...: the handler started at
  position \<open>k\<close> (counting from 0) was given the id \<open>k + 1\<close>, and the counter
  \<open>order_id\<close> of \<open>food_delivery\<close> is the number of handlers started. No id is in use
  twice: the ids held by the handlers that are still live and the ids recorded in
  \<open>completed_orders\<close> are pairwise distinct, and each of them is one of the ids handed
  out.
\<close>

theorem order_ids_sequential:
  assumes "0 < d"
  shows "(\<forall>k < length (spawned_ids (state_after n a m d r j)).
            spawned_ids (state_after n a m d r j) ! k = int k + 1) \<and>
         order_id (state_after n a m d r j) = int (length (spawned_ids (state_after n a m d r j))) \<and>
         distinct (pending_orders (state_after n a m d r j) @
                   completed_orders (results (state_after n a m d r j))) \<and>
         set (pending_orders (state_after n a m d r j) @
              completed_orders (results (state_after n a m d r j)))
           \<subseteq> set (spawned_ids (state_after n a m d r j))"
proof -
  let ?s = "state_after n a m d r j"
  have ok: "ids_ok ?s" by (rule ids_ok_state_after[OF assms])
  then have sl: "spawned_ids ?s = [1..order_id ?s]" and nn: "0 \<le> order_id ?s"
    unfolding ids_ok_def by blast+
  have "spawned_ids ?s ! k = int k + 1" if "k < length (spawned_ids ?s)" for k
  proof -
    from that have "k < length [1..order_id ?s]" using sl by simp
    then have "1 + int k \<le> order_id ?s" by simp
    then have "[1..order_id ?s] ! k = 1 + int k" by (rule nth_upto)
    then show ?thesis using sl by simp
  qed
  moreover have "order_id ?s = int (length (spawned_ids ?s))"
    unfolding sl using nn by simp
  ultimately show ?thesis using ids_ok_held[OF ok] by blast
qed

theorem order_ids_sequential_witness:
  "(0::rat) < 6 \<and>
   spawned_ids (state_after 1 1 1 6 (\<lambda>i. if i = 2 then 3 else 1) 40) = [1, 2, 3, 4, 5] \<and>
   order_id (state_after 1 1 1 6 (\<lambda>i. if i = 2 then 3 else 1) 40) = 5 \<and>
   completed_orders (results (state_after 1 1 1 6 (\<lambda>i. if i = 2 then 3 else 1) 40)) = [1, 2] \<and>
   [1, 2, 3, 4, 5 :: int] ! 0 = int 0 + 1 \<and> [1, 2, 3, 4, 5 :: int] ! 4 = int 4 + 1"
  using order_ids_sequential[of 6 1 1 1 "\<lambda>i. if i = 2 then 3 else 1" 40] queued_spawned
  by (simp add: queued_state)

subsection \<open>C8: first come, first served\<close>

text \<open>
  C8. At every point of a run, the requests in the order in which they arrived at the
  resource are the granted requests, in the order in which they were granted, followed
  by the waiting requests, in queue order. So the \<open>j\<close>-th request to arrive is the
  \<open>j\<close>-th to be granted, no request is granted while one that arrived earlier still
  waits, and of two granted requests the one that arrived earlier was granted no later.
\<close>

theorem fifo_grants:
  assumes "0 < d"
  shows "request_log (state_after n a m d r k) =
           map fst (usage_since (state_after n a m d r k)) @
           map fst (put_queue (state_after n a m d r k)) \<and>
         (\<forall>i j. i \<le> j \<and> j < length (usage_since (state_after n a m d r k)) \<longrightarrow>
            fst (usage_since (state_after n a m d r k) ! i) = request_log (state_after n a m d r k) ! i \<and>
            fst (usage_since (state_after n a m d r k) ! j) = request_log (state_after n a m d r k) ! j \<and>
            snd (usage_since (state_after n a m d r k) ! i) \<le>
            snd (usage_since (state_after n a m d r k) ! j))"
proof -
  let ?s = "state_after n a m d r k"
  from fifo_inv_state_after[OF assms, of n a m r k]
  have rl: "request_log ?s = map fst (usage_since ?s) @ map fst (put_queue ?s)"
    and so: "sorted (map snd (usage_since ?s))"
    unfolding fifo_inv_def by blast+
  have "fst (usage_since ?s ! i) = request_log ?s ! i" if "i < length (usage_since ?s)" for i
    using that rl by (simp add: nth_append)
  moreover have "snd (usage_since ?s ! i) \<le> snd (usage_since ?s ! j)"
    if "i \<le> j" "j < length (usage_since ?s)" for i j
    using sorted_nth_mono[OF so, of i j] that by simp
  ultimately show ?thesis using rl by auto
qed

theorem fifo_grants_witness:
  "(0::rat) < 6 \<and>
   request_log (state_after 1 1 1 6 (\<lambda>i. if i = 2 then 3 else 1) 40) = [1, 2, 3, 4, 5] \<and>
   usage_since (state_after 1 1 1 6 (\<lambda>i. if i = 2 then 3 else 1) 40) = [(1, 1), (2, 4), (3, 5)] \<and>
   put_queue (state_after 1 1 1 6 (\<lambda>i. if i = 2 then 3 else 1) 40) = [(4, 4), (5, 5)] \<and>
   [1, 2, 3, 4, 5 :: int] = map fst [(1, 1), (2, 4), (3, 5 :: rat)] @ map fst [(4, 4), (5, 5 :: rat)]"
  using fifo_grants[of 6 1 1 1 "\<lambda>i. if i = 2 then 3 else 1" 40] queued_state
  by simp

subsection \<open>C10: the three result lists\<close>

text \<open>
  C10. After any number of engine steps the three result lists have the same length;
  no order that a live generator still holds (waiting for a driver or in service)
  has an entry in \<open>completed_orders\<close>; and one more step leaves the results as they
  are or lets one pending order append one entry to each of the three lists. The
  results returned at the horizon are those of such a state, so an order that has not
  finished service by then has no entry.
\<close>

theorem results_grow_together:
  assumes "0 < d"
  shows "length (wait_times (results (state_after n a m d r k))) =
           length (completed_orders (results (state_after n a m d r k))) \<and>
         length (system_times (results (state_after n a m d r k))) =
           length (completed_orders (results (state_after n a m d r k))) \<and>
         (\<forall>oid \<in> set (pending_orders (state_after n a m d r k)).
            oid \<notin> set (completed_orders (results (state_after n a m d r k)))) \<and>
         appended_once (state_after n a m d r k) (state_after n a m d r (Suc k))"
proof -
  let ?s = "state_after n a m d r k"
  from time_inv_state_after[OF assms, of n a m r k]
  have "results_ok (results ?s)" by (simp add: time_inv_def)
  then have "length (wait_times (results ?s)) = length (completed_orders (results ?s))"
    "length (system_times (results ?s)) = length (completed_orders (results ?s))"
    by (auto simp: results_ok_def dest: list_all2_lengthD)
  moreover have "\<forall>oid \<in> set (pending_orders ?s). oid \<notin> set (completed_orders (results ?s))"
    using pending_not_completed[OF ids_ok_state_after[OF assms]] by blast
  ultimately show ?thesis using appended_once_state_after by blast
qed

theorem results_grow_together_witness:
  "(0::rat) < 6 \<and>
   results (state_after 1 1 1 6 (\<lambda>i. if i = 2 then 3 else 1) 16) =
     \<lparr>wait_times = [0], system_times = [3], completed_orders = [1]\<rparr> \<and>
   pending_orders (state_after 1 1 1 6 (\<lambda>i. if i = 2 then 3 else 1) 16) = [2, 3, 4, 5] \<and>
   appended_once (state_after 1 1 1 6 (\<lambda>i. if i = 2 then 3 else 1) 16)
                 (state_after 1 1 1 6 (\<lambda>i. if i = 2 then 3 else 1) (Suc 16)) \<and>
   results (state_after 1 1 1 6 (\<lambda>i. if i = 2 then 3 else 1) 17) =
     \<lparr>wait_times = [0, 2], system_times = [3, 3], completed_orders = [1, 2]\<rparr>"
proof -
  have p: "pending_orders (state_after 1 1 1 6 (\<lambda>i. if i = 2 then 3 else 1) 16) = [2, 3, 4, 5]"
    by (simp add: queued_state_16 pending_orders_def queue_ids_def)
  from results_grow_together[of 6 1 1 1 "\<lambda>i. if i = 2 then 3 else 1" 16]
  have "appended_once (state_after 1 1 1 6 (\<lambda>i. if i = 2 then 3 else 1) 16)
                 (state_after 1 1 1 6 (\<lambda>i. if i = 2 then 3 else 1) (Suc 16))" by simp
  with p queued_state_17 show ?thesis by (simp add: queued_state_16)
qed

end
